theory Spec2Isabelle
  imports Complex_Main "HOL-Library.Multiset"
begin

section \<open>The random order generator of \<^verbatim>\<open>src/pages/Practice.tsx\<close>\<close>

text \<open>
  \<^verbatim>\<open>Math.random()\<close> is the only input of \<^verbatim>\<open>generateRandomOrder\<close> besides the length.
  A random source \<open>rnd\<close> lists the numbers the successive calls of \<^verbatim>\<open>Math.random()\<close>
  return during one call of the generator: \<open>rnd t\<close> is the result of call number \<open>t\<close>
  (counted from 0). The contract of \<^verbatim>\<open>Math.random()\<close>, a number in \<open>[0, 1)\<close>, is
  \<open>unit_source\<close>. Numbers are exact reals: the rounding of the one floating-point
  product is not modelled.
\<close>

type_synonym source = "nat \<Rightarrow> real"

definition unit_source :: "source \<Rightarrow> bool" where
  "unit_source rnd = (\<forall>t. 0 \<le> rnd t \<and> rnd t < 1)"

text \<open>\<^verbatim>\<open>Math.floor(Math.random() * n)\<close>, for call number \<open>t\<close> of \<^verbatim>\<open>Math.random()\<close>.\<close>

definition random_index :: "source \<Rightarrow> nat \<Rightarrow> nat \<Rightarrow> nat" where
  "random_index rnd t n = nat \<lfloor>rnd t * real n\<rfloor>"

text \<open>
  The dense branch: \<^verbatim>\<open>for (let i = 0; i < numIndexes; i++) { const j = i +
  Math.floor(Math.random() * (length - i)); [order[i], order[j]] = [order[j], order[i]]; }\<close>.
  Iteration \<open>i\<close> makes call number \<open>i\<close> of \<^verbatim>\<open>Math.random()\<close>. The right-hand side of the
  destructuring assignment is read before either element is written. Under \<open>unit_source\<close>
  the index \<open>j\<close> is below \<open>len\<close>, so the reads and writes stay inside the array.
\<close>

function shuffle_loop :: "source \<Rightarrow> nat \<Rightarrow> nat \<Rightarrow> nat \<Rightarrow> nat list \<Rightarrow> nat list" where
  "shuffle_loop rnd len numIndexes i order =
     (if i < numIndexes
      then (let j = i + random_index rnd i (len - i)
            in shuffle_loop rnd len numIndexes (Suc i) (order[i := order ! j, j := order ! i]))
      else order)"
  by pat_completeness auto
termination
  by (relation "measure (\<lambda>(rnd, len, numIndexes, i, order). numIndexes - i)") auto

declare shuffle_loop.simps [simp del]

text \<open>
  A JavaScript \<^verbatim>\<open>Set<number>\<close> iterates in insertion order and \<^verbatim>\<open>add\<close> ignores a value
  it already holds: a list without repetitions, extended at the end.
\<close>

definition set_add :: "nat list \<Rightarrow> nat \<Rightarrow> nat list" where
  "set_add result x = (if x \<in> set result then result else result @ [x])"

text \<open>
  The sparse branch: \<^verbatim>\<open>while (result.size < numIndexes) { result.add(Math.floor(Math.random()
  * length)); }\<close>. The loop has no bound of its own: it runs until the source has
  produced \<open>numIndexes\<close> different indices, and not returning is the value \<open>None\<close>.
\<close>

partial_function (option) sample_loop ::
  "source \<Rightarrow> nat \<Rightarrow> nat \<Rightarrow> nat \<Rightarrow> nat list \<Rightarrow> nat list option" where
  "sample_loop rnd len numIndexes t result =
     (if length result < numIndexes
      then sample_loop rnd len numIndexes (Suc t) (set_add result (random_index rnd t len))
      else Some result)"

declare sample_loop.simps [code]

definition MAX_RANDOM_LEN :: nat where
  "MAX_RANDOM_LEN = 50"

text \<open>
  \<^verbatim>\<open>generateRandomOrder(length)\<close>. \<^verbatim>\<open>length / 2\<close> is a division of numbers, not of integers.
\<close>

definition generateRandomOrder :: "source \<Rightarrow> nat \<Rightarrow> nat list option" where
  "generateRandomOrder rnd len =
     (let numIndexes = min MAX_RANDOM_LEN len
      in if real numIndexes > real len / 2
         then Some (take numIndexes (shuffle_loop rnd len numIndexes 0 [0..<len]))
         else sample_loop rnd len numIndexes 0 [])"

text \<open>
  The sparse loop returns once the source has produced enough different indices: some
  finite prefix of the draws holds \<open>k\<close> different values.
\<close>

definition yields_distinct :: "source \<Rightarrow> nat \<Rightarrow> nat \<Rightarrow> bool" where
  "yields_distinct rnd len k = (\<exists>T. k \<le> card ((\<lambda>t. random_index rnd t len) ` {..<T}))"

text \<open>Two concrete sources: a constant one, and one that cycles through \<open>m\<close> values.\<close>

definition const_source :: "real \<Rightarrow> source" where
  "const_source r t = r"

definition cycle_source :: "nat \<Rightarrow> source" where
  "cycle_source m t = real (t mod m) / real m"

section \<open>The \<^verbatim>\<open>Practice\<close> component\<close>

text \<open>
  The state the component holds in \<^verbatim>\<open>useState\<close>. \<^verbatim>\<open>orderIndex\<close> and \<^verbatim>\<open>counter\<close> are
  JavaScript numbers that only ever hold integers. An object URL is the number of the
  handle the browser gave out. The props are parameters of the operations: \<open>nfiles\<close> is
  \<^verbatim>\<open>imageFiles.length\<close> (a file is its index in \<^verbatim>\<open>imageFiles\<close>) and \<open>timeMS\<close> is the value
  of \<^verbatim>\<open>fixedTimeToMS(fixedTime)\<close>, a function of \<^verbatim>\<open>types/session\<close>.
\<close>

record practice =
  imageOrder :: "nat list"
  orderIndex :: int
  currentImageUrl :: nat
  showOverlay :: bool
  pause :: bool
  mute :: bool
  counter :: int

definition INTERVAL_MS :: real where
  "INTERVAL_MS = 10"

definition TICKS_PER_SLIDE :: "real \<Rightarrow> real" where
  "TICKS_PER_SLIDE timeMS = timeMS / INTERVAL_MS"

text \<open>
  \<^verbatim>\<open>next\<close>. The closures of the component read \<^verbatim>\<open>orderIndex\<close> and \<^verbatim>\<open>imageOrder\<close> of the
  render they were made in; every event is taken to be handled after the render of the
  one before is committed, so these are the current values. \<^verbatim>\<open>imageOrder.length - 1\<close> is
  \<open>-1\<close> for an empty order. The call of \<^verbatim>\<open>generateRandomOrder\<close> may not return.
\<close>

definition next_image :: "source \<Rightarrow> nat \<Rightarrow> practice \<Rightarrow> practice option" where
  "next_image rnd nfiles s =
     (if orderIndex s = int (length (imageOrder s)) - 1
      then (case generateRandomOrder rnd nfiles of
              None \<Rightarrow> None
            | Some chunk \<Rightarrow>
                Some (s\<lparr>imageOrder := imageOrder s @ chunk,
                        orderIndex := orderIndex s + 1, counter := 0\<rparr>))
      else Some (s\<lparr>orderIndex := orderIndex s + 1, counter := 0\<rparr>))"

text \<open>\<^verbatim>\<open>prev\<close>.\<close>

definition prev :: "practice \<Rightarrow> practice" where
  "prev s = (if orderIndex s = 0 then s
             else s\<lparr>orderIndex := orderIndex s - 1, counter := 0\<rparr>)"

text \<open>
  The callback of the interval timer: \<^verbatim>\<open>setCounter((prev) => { if (prev >=
  TICKS_PER_SLIDE) { next(); return 0; } return prev + 1; })\<close>.
\<close>

definition tick :: "source \<Rightarrow> nat \<Rightarrow> real \<Rightarrow> practice \<Rightarrow> practice option" where
  "tick rnd nfiles timeMS s =
     (if real_of_int (counter s) \<ge> TICKS_PER_SLIDE timeMS
      then map_option (\<lambda>s'. s'\<lparr>counter := 0\<rparr>) (next_image rnd nfiles s)
      else Some (s\<lparr>counter := counter s + 1\<rparr>))"

text \<open>
  \<^verbatim>\<open>handleKeyPress\<close>: three tests of \<^verbatim>\<open>event.key\<close>, of which at most one holds.
\<close>

definition handleKeyPress :: "source \<Rightarrow> nat \<Rightarrow> string \<Rightarrow> practice \<Rightarrow> practice option" where
  "handleKeyPress rnd nfiles key s =
     (if key = ''ArrowRight'' then next_image rnd nfiles s
      else if key = ''ArrowLeft'' then Some (prev s)
      else if key = '' '' then Some (s\<lparr>pause := \<not> pause s\<rparr>)
      else Some s)"

text \<open>
  A state on three files with the order \<open>[1, 2, 0]\<close>, at position \<open>i\<close> with the counter at
  \<open>c\<close>.
\<close>

definition slide :: "int \<Rightarrow> int \<Rightarrow> practice" where
  "slide i c =
     \<lparr>imageOrder = [1, 2, 0], orderIndex = i, currentImageUrl = 1, showOverlay = False,
      pause = False, mute = False, counter = c\<rparr>"

section \<open>The browser resources of the component\<close>

text \<open>
  What the component holds of the browser: the object URLs that are live, the calls of
  \<^verbatim>\<open>URL.revokeObjectURL\<close> so far, the interval timers that are active and the
  \<^verbatim>\<open>keydown\<close> listeners of \<^verbatim>\<open>window\<close>. Every URL, timer and listener closure is a fresh
  handle.
\<close>

record browser =
  objectURLs :: "nat list"
  revocations :: "nat list"
  intervals :: "nat list"
  keydownListeners :: "nat list"
  nextHandle :: nat

datatype failure = TypeError | NoReturn

text \<open>
  \<^verbatim>\<open>imageOrder[orderIndex]\<close> and \<^verbatim>\<open>imageFiles[fileIndex]\<close>: a read outside the array is
  \<^verbatim>\<open>undefined\<close>, and so is a read at the index \<^verbatim>\<open>undefined\<close>.
\<close>

definition order_at :: "nat list \<Rightarrow> int \<Rightarrow> nat option" where
  "order_at order i = (if 0 \<le> i \<and> i < int (length order) then Some (order ! nat i) else None)"

definition file_at :: "nat \<Rightarrow> nat option \<Rightarrow> nat option" where
  "file_at nfiles fileIndex =
     (case fileIndex of
        None \<Rightarrow> None
      | Some i \<Rightarrow> if i < nfiles then Some i else None)"

text \<open>\<^verbatim>\<open>URL.createObjectURL\<close> throws a \<^verbatim>\<open>TypeError\<close> when its argument is \<^verbatim>\<open>undefined\<close>.\<close>

definition createObjectURL :: "nat option \<Rightarrow> browser \<Rightarrow> failure + nat \<times> browser" where
  "createObjectURL file b =
     (case file of
        None \<Rightarrow> Inl TypeError
      | Some f \<Rightarrow>
          Inr (nextHandle b,
               b\<lparr>objectURLs := objectURLs b @ [nextHandle b], nextHandle := Suc (nextHandle b)\<rparr>))"

definition revokeObjectURL :: "nat \<Rightarrow> browser \<Rightarrow> browser" where
  "revokeObjectURL url b =
     b\<lparr>objectURLs := removeAll url (objectURLs b), revocations := revocations b @ [url]\<rparr>"

definition setInterval :: "browser \<Rightarrow> nat \<times> browser" where
  "setInterval b =
     (nextHandle b, b\<lparr>intervals := intervals b @ [nextHandle b], nextHandle := Suc (nextHandle b)\<rparr>)"

definition clearInterval :: "nat \<Rightarrow> browser \<Rightarrow> browser" where
  "clearInterval timer b = b\<lparr>intervals := removeAll timer (intervals b)\<rparr>"

definition addKeydownListener :: "browser \<Rightarrow> nat \<times> browser" where
  "addKeydownListener b =
     (nextHandle b,
      b\<lparr>keydownListeners := keydownListeners b @ [nextHandle b], nextHandle := Suc (nextHandle b)\<rparr>)"

definition removeKeydownListener :: "nat \<Rightarrow> browser \<Rightarrow> browser" where
  "removeKeydownListener h b = b\<lparr>keydownListeners := removeAll h (keydownListeners b)\<rparr>"

text \<open>What the cleanup function of the effect closes over.\<close>

record effect =
  effUrl :: nat
  effTimer :: "nat option"
  effHandler :: nat

record world =
  state :: practice
  eff :: effect
  env :: browser

text \<open>
  The body of the effect with the dependencies \<^verbatim>\<open>[orderIndex, pause]\<close>: it creates the URL
  of the current file, stores it in \<^verbatim>\<open>currentImageUrl\<close>, starts the timer unless
  \<^verbatim>\<open>pause\<close> holds, and registers the key listener.
\<close>

definition run_effect :: "nat \<Rightarrow> practice \<Rightarrow> browser \<Rightarrow> failure + world" where
  "run_effect nfiles s b =
     (case createObjectURL (file_at nfiles (order_at (imageOrder s) (orderIndex s))) b of
        Inl e \<Rightarrow> Inl e
      | Inr (url, b1) \<Rightarrow>
          (let (timer, b2) =
                 (if \<not> pause s then (let (t, b') = setInterval b1 in (Some t, b'))
                  else (None, b1));
               (h, b3) = addKeydownListener b2
           in Inr \<lparr>state = s\<lparr>currentImageUrl := url\<rparr>,
                   eff = \<lparr>effUrl = url, effTimer = timer, effHandler = h\<rparr>,
                   env = b3\<rparr>))"

text \<open>
  The cleanup function the effect returns: \<^verbatim>\<open>URL.revokeObjectURL(url); if (timer)
  clearInterval(timer); window.removeEventListener("keydown", handleKeyPress);\<close>. The
  identifier \<^verbatim>\<open>setInterval\<close> returns is never 0, so \<^verbatim>\<open>if (timer)\<close> tests that a timer was
  started.
\<close>

definition cleanup :: "effect \<Rightarrow> browser \<Rightarrow> browser" where
  "cleanup e b =
     (let b1 = revokeObjectURL (effUrl e) b;
          b2 = (case effTimer e of None \<Rightarrow> b1 | Some t \<Rightarrow> clearInterval t b1)
      in removeKeydownListener (effHandler e) b2)"

text \<open>
  A committed render: when \<^verbatim>\<open>orderIndex\<close> or \<^verbatim>\<open>pause\<close> changed, the cleanup of the last
  effect runs and then the effect runs again; otherwise only the state changes.
\<close>

definition rerender :: "nat \<Rightarrow> world \<Rightarrow> practice \<Rightarrow> failure + world" where
  "rerender nfiles w s' =
     (if orderIndex s' \<noteq> orderIndex (state w) \<or> pause s' \<noteq> pause (state w)
      then run_effect nfiles s' (cleanup (eff w) (env w))
      else Inr (w\<lparr>state := s'\<rparr>))"

definition fresh_browser :: browser where
  "fresh_browser =
     \<lparr>objectURLs = [], revocations = [], intervals = [], keydownListeners = [], nextHandle = 0\<rparr>"

text \<open>
  Mounting: the initial values of the \<^verbatim>\<open>useState\<close> calls in their order (the initial
  \<^verbatim>\<open>currentImageUrl\<close> is \<^verbatim>\<open>URL.createObjectURL(imageFiles[orderIndex])\<close> with \<^verbatim>\<open>orderIndex\<close>
  0), then the first run of the effect.
\<close>

definition mount :: "source \<Rightarrow> nat \<Rightarrow> failure + world" where
  "mount rnd nfiles =
     (case generateRandomOrder rnd nfiles of
        None \<Rightarrow> Inl NoReturn
      | Some order \<Rightarrow>
          (case createObjectURL (file_at nfiles (Some 0)) fresh_browser of
             Inl e \<Rightarrow> Inl e
           | Inr (url0, b0) \<Rightarrow>
               run_effect nfiles
                 \<lparr>imageOrder = order, orderIndex = 0, currentImageUrl = url0,
                  showOverlay = False, pause = False, mute = False, counter = 0\<rparr> b0))"

text \<open>Unmounting runs the cleanup of the last effect.\<close>

definition unmount :: "world \<Rightarrow> browser" where
  "unmount w = cleanup (eff w) (env w)"

text \<open>
  The events of a session. The timer callback runs only while a timer is active and the
  key handler only while a listener is registered. The buttons of \<^verbatim>\<open>ButtonOverlay\<close> exist
  only while \<^verbatim>\<open>showOverlay\<close> holds; they call \<^verbatim>\<open>next\<close>, \<^verbatim>\<open>prev\<close>, \<^verbatim>\<open>setPause(!pause)\<close> and
  \<^verbatim>\<open>setMute(!mute)\<close>. \<open>ClickView\<close> is the \<^verbatim>\<open>onClick\<close> of the view itself; a click on a
  button that also reaches the view is the button's event followed by \<open>ClickView\<close>.
\<close>

datatype event =
  IntervalElapsed | KeyDown string | ClickNext | ClickPrev | ClickPause | ClickMute | ClickView

definition update :: "event \<Rightarrow> source \<Rightarrow> nat \<Rightarrow> real \<Rightarrow> world \<Rightarrow> practice option" where
  "update ev rnd nfiles timeMS w =
     (let s = state w in
      case ev of
        IntervalElapsed \<Rightarrow> if intervals (env w) = [] then Some s else tick rnd nfiles timeMS s
      | KeyDown key \<Rightarrow>
          if keydownListeners (env w) = [] then Some s else handleKeyPress rnd nfiles key s
      | ClickNext \<Rightarrow> if showOverlay s then next_image rnd nfiles s else Some s
      | ClickPrev \<Rightarrow> Some (if showOverlay s then prev s else s)
      | ClickPause \<Rightarrow> Some (if showOverlay s then s\<lparr>pause := \<not> pause s\<rparr> else s)
      | ClickMute \<Rightarrow> Some (if showOverlay s then s\<lparr>mute := \<not> mute s\<rparr> else s)
      | ClickView \<Rightarrow> Some (s\<lparr>showOverlay := \<not> showOverlay s\<rparr>))"

definition step :: "nat \<Rightarrow> real \<Rightarrow> event \<times> source \<Rightarrow> world \<Rightarrow> failure + world" where
  "step nfiles timeMS e w =
     (case update (fst e) (snd e) nfiles timeMS w of
        None \<Rightarrow> Inl NoReturn
      | Some s' \<Rightarrow> rerender nfiles w s')"

fun run :: "nat \<Rightarrow> real \<Rightarrow> (event \<times> source) list \<Rightarrow> world \<Rightarrow> failure + world" where
  "run nfiles timeMS [] w = Inr w"
| "run nfiles timeMS (e # es) w =
     (case step nfiles timeMS e w of
        Inl f \<Rightarrow> Inl f
      | Inr w' \<Rightarrow> run nfiles timeMS es w')"

text \<open>A session: the mount, then the events in their order.\<close>

definition session :: "source \<Rightarrow> nat \<Rightarrow> real \<Rightarrow> (event \<times> source) list \<Rightarrow> failure + world" where
  "session rnd nfiles timeMS es =
     (case mount rnd nfiles of
        Inl f \<Rightarrow> Inl f
      | Inr w \<Rightarrow> run nfiles timeMS es w)"

text \<open>
  A session on three files in which every draw is one half: right arrow, one tick, space.
  \<open>demo_world\<close> is where it ends.
\<close>

definition demo_events :: "(event \<times> source) list" where
  "demo_events =
     [(KeyDown ''ArrowRight'', const_source (1/2)), (IntervalElapsed, const_source (1/2)),
      (KeyDown '' '', const_source (1/2))]"

definition demo_world :: world where
  "demo_world =
     \<lparr>state = \<lparr>imageOrder = [1, 2, 0], orderIndex = 1, currentImageUrl = 7, showOverlay = False,
               pause = True, mute = False, counter = 1\<rparr>,
      eff = \<lparr>effUrl = 7, effTimer = None, effHandler = 8\<rparr>,
      env = \<lparr>objectURLs = [0, 7], revocations = [1, 4], intervals = [], keydownListeners = [8],
             nextHandle = 9\<rparr>\<rparr>"

text \<open>The world after the mount on three files with every draw one half, with the counter at \<open>c\<close>.\<close>

definition mounted_world :: "int \<Rightarrow> world" where
  "mounted_world c =
     \<lparr>state = slide 0 c,
      eff = \<lparr>effUrl = 1, effTimer = Some 2, effHandler = 3\<rparr>,
      env = \<lparr>objectURLs = [0, 1], revocations = [], intervals = [2], keydownListeners = [3],
             nextHandle = 4\<rparr>\<rparr>"

text \<open>
  A session on three files that is paused after 500 ticks, and the world it ends in.
\<close>

definition paused_events :: "(event \<times> source) list" where
  "paused_events =
     replicate 500 (IntervalElapsed, const_source (1/2)) @ [(KeyDown '' '', const_source (1/2))]"

definition paused_world :: world where
  "paused_world =
     \<lparr>state = \<lparr>imageOrder = [1, 2, 0], orderIndex = 0, currentImageUrl = 4, showOverlay = False,
               pause = True, mute = False, counter = 500\<rparr>,
      eff = \<lparr>effUrl = 4, effTimer = None, effHandler = 5\<rparr>,
      env = \<lparr>objectURLs = [0, 4], revocations = [1], intervals = [], keydownListeners = [5],
             nextHandle = 6\<rparr>\<rparr>"

section \<open>Fitting the window to the image\<close>

text \<open>The geometry of the host window, as \<^verbatim>\<open>window\<close> reports it.\<close>

record geometry =
  innerWidth :: real
  innerHeight :: real
  outerWidth :: real
  outerHeight :: real
  screenX :: real
  screenY :: real

text \<open>
  The \<^verbatim>\<open>onload\<close> handler of \<^verbatim>\<open>resizeWindow\<close>, for an image that has loaded with the size
  \<open>width\<close> by \<open>height\<close>. The result is the arguments of \<^verbatim>\<open>window.resizeTo\<close> and of
  \<^verbatim>\<open>window.moveTo\<close>. Numbers are exact reals; the sizes of a loaded image are positive.
\<close>

definition resizeWindow ::
  "real \<Rightarrow> real \<Rightarrow> real \<Rightarrow> real \<Rightarrow> geometry \<Rightarrow> (real \<times> real) \<times> (real \<times> real)" where
  "resizeWindow width height maxWidth maxHeight window =
     (let scaleWidth = maxWidth / width;
          scaleHeight = maxHeight / height;
          scaleFactor = min scaleWidth scaleHeight;
          newWidth = width * scaleFactor;
          newHeight = height * scaleFactor;
          browserUIWidth = outerWidth window - innerWidth window;
          browserUIHeight = outerHeight window - innerHeight window;
          adjustedWidth = newWidth + browserUIWidth;
          adjustedHeight = newHeight + browserUIHeight;
          currentLeft = screenX window;
          currentTop = screenY window;
          newLeft = currentLeft - (adjustedWidth - innerWidth window) / 2;
          newTop = currentTop - (adjustedHeight - innerHeight window) / 2
      in ((adjustedWidth, adjustedHeight), (newLeft, newTop)))"

text \<open>
  \<^verbatim>\<open>window.resizeTo\<close> takes the outer size of the window and \<^verbatim>\<open>window.moveTo\<close> its top
  left corner. The centre of the window as it is, and the centre of the rectangle the two
  requests ask for.
\<close>

definition current_center :: "geometry \<Rightarrow> real \<times> real" where
  "current_center window =
     (screenX window + outerWidth window / 2, screenY window + outerHeight window / 2)"

definition requested_center :: "(real \<times> real) \<times> (real \<times> real) \<Rightarrow> real \<times> real" where
  "requested_center r = (fst (snd r) + fst (fst r) / 2, snd (snd r) + snd (fst r) / 2)"

text \<open>
  A window of 800 by 600 with 16 and 39 pixels of frame, and an image of 400 by 300 that
  fits it at scale 2.
\<close>

definition framed_window :: geometry where
  "framed_window =
     \<lparr>innerWidth = 800, innerHeight = 600, outerWidth = 816, outerHeight = 639,
      screenX = 100, screenY = 50\<rparr>"

section \<open>Invariants of a session\<close>

text \<open>
  What holds of the resources after every event: the URL in \<^verbatim>\<open>currentImageUrl\<close> is the one
  the last effect created; the live URLs are the one of the initial state (handle 0) and
  the one of the last effect; every revoked URL is older than the last effect's; a timer
  is active exactly when \<^verbatim>\<open>pause\<close> is off, and it is the last effect's; the one key
  listener is the last effect's. \<open>position_ok\<close> says that the position lies in the order and
  the order holds indices of files. \<open>idle_browser\<close> is the browser between a cleanup and
  the next run of the effect.
\<close>

definition resources_ok :: "world \<Rightarrow> bool" where
  "resources_ok w =
     (currentImageUrl (state w) = effUrl (eff w) \<and>
      objectURLs (env w) = [0, effUrl (eff w)] \<and>
      0 < effUrl (eff w) \<and>
      effUrl (eff w) < nextHandle (env w) \<and>
      list_all (\<lambda>u. u < effUrl (eff w)) (revocations (env w)) \<and>
      intervals (env w) = (case effTimer (eff w) of None \<Rightarrow> [] | Some t \<Rightarrow> [t]) \<and>
      (effTimer (eff w) = None) = pause (state w) \<and>
      keydownListeners (env w) = [effHandler (eff w)])"

definition position_ok :: "nat \<Rightarrow> practice \<Rightarrow> bool" where
  "position_ok nfiles s =
     (0 \<le> orderIndex s \<and> orderIndex s < int (length (imageOrder s)) \<and>
      list_all (\<lambda>i. i < nfiles) (imageOrder s))"

definition idle_browser :: "browser \<Rightarrow> bool" where
  "idle_browser b =
     (objectURLs b = [0] \<and> 0 < nextHandle b \<and> list_all (\<lambda>u. u < nextHandle b) (revocations b) \<and>
      intervals b = [] \<and> keydownListeners b = [])"

text \<open>A source under which every call of the generator on \<open>nfiles\<close> files returns.\<close>

definition good_source :: "nat \<Rightarrow> source \<Rightarrow> bool" where
  "good_source nfiles rnd = (unit_source rnd \<and> (100 \<le> nfiles \<longrightarrow> yields_distinct rnd nfiles 50))"

section \<open>Properties of the generator\<close>

lemma random_index_less:
  assumes "unit_source rnd" "0 < n"
  shows "random_index rnd t n < n"
proof -
  from assms have "0 \<le> rnd t" "rnd t < 1" by (auto simp: unit_source_def)
  then have "rnd t * real n < real n" using assms(2) by simp
  then have "\<lfloor>rnd t * real n\<rfloor> < int n" by (simp add: floor_less_iff)
  then show ?thesis unfolding random_index_def using assms(2) by linarith
qed

subsection \<open>The dense branch\<close>

text \<open>Every swap stays inside the array, so the loop permutes it.\<close>

lemma swap_index_less:
  assumes "unit_source rnd" "i < numIndexes" "numIndexes \<le> len"
  shows "i + random_index rnd i (len - i) < len"
  using random_index_less [OF assms(1), of "len - i" i] assms(2,3) by simp

lemma shuffle_loop_mset:
  "unit_source rnd \<Longrightarrow> numIndexes \<le> len \<Longrightarrow> length order = len \<Longrightarrow>
   mset (shuffle_loop rnd len numIndexes i order) = mset order"
proof (induction rnd len numIndexes i order rule: shuffle_loop.induct)
  case (1 rnd len numIndexes i order)
  show ?case
  proof (cases "i < numIndexes")
    case False
    then show ?thesis by (subst shuffle_loop.simps) simp
  next
    case True
    define j where "j = i + random_index rnd i (len - i)"
    have j: "j < len" unfolding j_def using swap_index_less "1.prems"(1,2) True by blast
    have i: "i < len" using True "1.prems"(2) by simp
    have sw: "mset (order[i := order ! j, j := order ! i]) = mset order"
      using mset_swap [of j order i] i j "1.prems"(3) by simp
    have "mset (shuffle_loop rnd len numIndexes (Suc i) (order[i := order ! j, j := order ! i]))
          = mset (order[i := order ! j, j := order ! i])"
      using "1.IH" [OF True j_def] "1.prems" by simp
    with sw True show ?thesis by (subst shuffle_loop.simps) (simp add: j_def Let_def)
  qed
qed

lemma shuffle_loop_result:
  assumes "unit_source rnd" "numIndexes \<le> len"
  defines "xs \<equiv> take numIndexes (shuffle_loop rnd len numIndexes 0 [0..<len])"
  shows "distinct xs" "set xs \<subseteq> {..<len}" "length xs = numIndexes"
proof -
  let ?ys = "shuffle_loop rnd len numIndexes 0 [0..<len]"
  have m: "mset ?ys = mset [0..<len]"
    using shuffle_loop_mset [OF assms(1,2), of "[0..<len]" 0] by simp
  have d: "distinct ?ys" using mset_eq_imp_distinct_iff [OF m] by simp
  have s: "set ?ys = {..<len}" using mset_eq_setD [OF m] by (simp add: atLeast0LessThan)
  have l: "length ?ys = len" using mset_eq_length [OF m] by simp
  show "distinct xs" unfolding xs_def using d by simp
  show "set xs \<subseteq> {..<len}" unfolding xs_def using set_take_subset [of numIndexes ?ys] s by simp
  show "length xs = numIndexes" unfolding xs_def using l assms(2) by simp
qed

subsection \<open>The sparse branch\<close>

text \<open>
  What the loop returns, if it returns; that it returns once some prefix of the draws
  holds enough different indices; and that it returns only then.
\<close>

lemma set_add_props:
  "set (set_add result x) = insert x (set result)"
  "distinct result \<Longrightarrow> distinct (set_add result x)"
  "length result \<le> length (set_add result x)"
  "length (set_add result x) \<le> Suc (length result)"
  by (auto simp: set_add_def)

lemma sample_loop_partial:
  assumes "sample_loop rnd len numIndexes t result = Some xs"
  shows "unit_source rnd \<longrightarrow> 0 < len \<longrightarrow> distinct result \<longrightarrow> set result \<subseteq> {..<len} \<longrightarrow>
         length result \<le> numIndexes \<longrightarrow>
         distinct xs \<and> set xs \<subseteq> {..<len} \<and> length xs = numIndexes"
proof (rule sample_loop.raw_induct [where P = "\<lambda>rnd len numIndexes t result xs.
         unit_source rnd \<longrightarrow> 0 < len \<longrightarrow> distinct result \<longrightarrow> set result \<subseteq> {..<len} \<longrightarrow>
         length result \<le> numIndexes \<longrightarrow>
         distinct xs \<and> set xs \<subseteq> {..<len} \<and> length xs = numIndexes", OF _ assms], goal_cases)
  case (1 loop rnd len numIndexes t result xs)
  show ?case
  proof (intro impI)
    assume u: "unit_source rnd" and l: "0 < len" and d: "distinct result"
      and s: "set result \<subseteq> {..<len}" and n: "length result \<le> numIndexes"
    show "distinct xs \<and> set xs \<subseteq> {..<len} \<and> length xs = numIndexes"
    proof (cases "length result < numIndexes")
      case False
      with 1(2) have "xs = result" by simp
      with False d s n show ?thesis by simp
    next
      case True
      let ?r = "set_add result (random_index rnd t len)"
      have call: "loop rnd len numIndexes (Suc t) ?r = Some xs"
        using 1(2) True by simp
      have "length ?r \<le> Suc (length result)" by (rule set_add_props(4))
      then have n': "length ?r \<le> numIndexes" using True by linarith
      have s': "set ?r \<subseteq> {..<len}"
        using s random_index_less [OF u l, of t] by (simp add: set_add_props(1))
      have d': "distinct ?r" using d by (rule set_add_props(2))
      show ?thesis using 1(1) [OF call] u l d' s' n' by simp
    qed
  qed
qed

lemma sample_loop_returns:
  assumes "numIndexes \<le> card ((\<lambda>t. random_index rnd t len) ` {..<T})"
    and "distinct result" "set result = (\<lambda>t. random_index rnd t len) ` {..<t}"
  shows "\<exists>xs. sample_loop rnd len numIndexes t result = Some xs"
  using assms(2,3)
proof (induction "T - t" arbitrary: t result rule: less_induct)
  case less
  let ?D = "\<lambda>t. random_index rnd t len"
  show ?case
  proof (cases "length result < numIndexes")
    case False
    then show ?thesis by (subst sample_loop.simps) simp
  next
    case True
    have "t < T"
    proof (rule ccontr)
      assume "\<not> t < T"
      then have "?D ` {..<T} \<subseteq> ?D ` {..<t}" by auto
      then have "card (?D ` {..<T}) \<le> card (?D ` {..<t})" by (simp add: card_mono)
      also have "\<dots> = length result"
        using distinct_card [OF less.prems(1)] less.prems(2) by simp
      finally show False using True assms(1) by simp
    qed
    let ?r = "set_add result (?D t)"
    have "set ?r = ?D ` {..<Suc t}"
      using less.prems(2) by (simp add: set_add_props lessThan_Suc)
    moreover have "distinct ?r" using less.prems(1) by (simp add: set_add_props)
    moreover have "T - Suc t < T - t" using \<open>t < T\<close> by simp
    ultimately obtain xs where "sample_loop rnd len numIndexes (Suc t) ?r = Some xs"
      using less.hyps by blast
    then show ?thesis using True by (subst sample_loop.simps) simp
  qed
qed

lemma sample_loop_draws:
  assumes "sample_loop rnd len numIndexes t result = Some xs"
  shows "distinct result \<longrightarrow> set result = (\<lambda>i. random_index rnd i len) ` {..<t} \<longrightarrow>
         distinct xs \<and> (\<exists>T. set xs = (\<lambda>i. random_index rnd i len) ` {..<T}) \<and>
         numIndexes \<le> length xs"
proof (rule sample_loop.raw_induct [where P = "\<lambda>rnd len numIndexes t result xs.
         distinct result \<longrightarrow> set result = (\<lambda>i. random_index rnd i len) ` {..<t} \<longrightarrow>
         distinct xs \<and> (\<exists>T. set xs = (\<lambda>i. random_index rnd i len) ` {..<T}) \<and>
         numIndexes \<le> length xs", OF _ assms], goal_cases)
  case (1 loop rnd len numIndexes t result xs)
  show ?case
  proof (intro impI)
    assume d: "distinct result" and s: "set result = (\<lambda>i. random_index rnd i len) ` {..<t}"
    show "distinct xs \<and> (\<exists>T. set xs = (\<lambda>i. random_index rnd i len) ` {..<T}) \<and>
          numIndexes \<le> length xs"
    proof (cases "length result < numIndexes")
      case False
      with 1(2) have "xs = result" by simp
      with False d s show ?thesis by auto
    next
      case True
      let ?r = "set_add result (random_index rnd t len)"
      have call: "loop rnd len numIndexes (Suc t) ?r = Some xs"
        using 1(2) True by simp
      have d': "distinct ?r" using d by (rule set_add_props(2))
      have s': "set ?r = (\<lambda>i. random_index rnd i len) ` {..<Suc t}"
        using s by (simp add: set_add_props(1) lessThan_Suc)
      show ?thesis using 1(1) [OF call] d' s' by simp
    qed
  qed
qed

subsection \<open>Both branches\<close>

text \<open>The dense branch is the one taken for 1 to 99 files.\<close>

lemma dense_iff: "(real (min MAX_RANDOM_LEN len) > real len / 2) = (0 < len \<and> len < 100)"
  by (auto simp: MAX_RANDOM_LEN_def min_def)

lemma generateRandomOrder_partial:
  assumes "generateRandomOrder rnd len = Some xs" "unit_source rnd" "1 \<le> len"
  shows "distinct xs" "set xs \<subseteq> {..<len}" "length xs = min MAX_RANDOM_LEN len"
proof -
  let ?k = "min MAX_RANDOM_LEN len"
  have "distinct xs \<and> set xs \<subseteq> {..<len} \<and> length xs = ?k"
  proof (cases "len < 100")
    case True
    have "generateRandomOrder rnd len = Some (take ?k (shuffle_loop rnd len ?k 0 [0..<len]))"
      unfolding generateRandomOrder_def Let_def dense_iff using True assms(3) by simp
    with assms(1) have xs: "xs = take ?k (shuffle_loop rnd len ?k 0 [0..<len])" by simp
    have "?k \<le> len" by simp
    from shuffle_loop_result [OF assms(2) this] show ?thesis unfolding xs by simp
  next
    case False
    have "generateRandomOrder rnd len = sample_loop rnd len ?k 0 []"
      unfolding generateRandomOrder_def Let_def dense_iff using False by simp
    with assms(1) have l: "sample_loop rnd len ?k 0 [] = Some xs" by simp
    have "0 < len" using assms(3) by simp
    from sample_loop_partial [OF l, rule_format, OF assms(2) this] show ?thesis by simp
  qed
  then show "distinct xs" "set xs \<subseteq> {..<len}" "length xs = min MAX_RANDOM_LEN len" by simp_all
qed

lemma generateRandomOrder_result:
  assumes "unit_source rnd" "1 \<le> len"
    and "100 \<le> len \<longrightarrow> yields_distinct rnd len MAX_RANDOM_LEN"
  shows "\<exists>xs. generateRandomOrder rnd len = Some xs \<and> distinct xs \<and> set xs \<subseteq> {..<len} \<and>
              length xs = min MAX_RANDOM_LEN len"
proof (cases "len < 100")
  case True
  let ?k = "min MAX_RANDOM_LEN len"
  have g: "generateRandomOrder rnd len = Some (take ?k (shuffle_loop rnd len ?k 0 [0..<len]))"
    unfolding generateRandomOrder_def Let_def dense_iff using True assms(2) by simp
  have "?k \<le> len" by simp
  from shuffle_loop_result [OF assms(1) this] g show ?thesis by simp
next
  case False
  then have k: "min MAX_RANDOM_LEN len = MAX_RANDOM_LEN" by (simp add: MAX_RANDOM_LEN_def)
  have g: "generateRandomOrder rnd len = sample_loop rnd len MAX_RANDOM_LEN 0 []"
    unfolding generateRandomOrder_def Let_def dense_iff using False k by simp
  from False assms(3) obtain T
    where "MAX_RANDOM_LEN \<le> card ((\<lambda>t. random_index rnd t len) ` {..<T})"
    by (auto simp: yields_distinct_def)
  from sample_loop_returns [OF this, of "[]" 0]
  obtain xs where xs: "sample_loop rnd len MAX_RANDOM_LEN 0 [] = Some xs" by auto
  have "0 < len" using assms(2) by simp
  from sample_loop_partial [OF xs, rule_format, OF assms(1) this] xs g k
  show ?thesis by simp
qed

lemma generateRandomOrder_nonempty:
  assumes "unit_source rnd" "1 \<le> nfiles" "100 \<le> nfiles \<longrightarrow> yields_distinct rnd nfiles 50"
  shows "\<exists>chunk. generateRandomOrder rnd nfiles = Some chunk \<and> chunk \<noteq> [] \<and> (\<forall>x \<in> set chunk. x < nfiles)"
proof -
  from generateRandomOrder_result [OF assms(1,2)] assms(3)
  obtain xs where xs: "generateRandomOrder rnd nfiles = Some xs"
    "set xs \<subseteq> {..<nfiles}" "length xs = min MAX_RANDOM_LEN nfiles"
    unfolding MAX_RANDOM_LEN_def by blast
  have "0 < length xs" using xs(3) assms(2) by (simp add: MAX_RANDOM_LEN_def)
  then have "xs \<noteq> []" by simp
  moreover have "\<forall>x \<in> set xs. x < nfiles" using xs(2) by auto
  ultimately show ?thesis using xs(1) by blast
qed

lemma sparse_returns_only_if:
  assumes "100 \<le> len" "generateRandomOrder rnd len = Some xs"
  shows "yields_distinct rnd len 50"
proof -
  have k: "min MAX_RANDOM_LEN len = 50" using assms(1) by (simp add: MAX_RANDOM_LEN_def)
  have "generateRandomOrder rnd len = sample_loop rnd len 50 0 []"
    unfolding generateRandomOrder_def Let_def dense_iff k using assms(1) by simp
  with assms(2) have "sample_loop rnd len 50 0 [] = Some xs" by simp
  from sample_loop_draws [OF this] obtain T
    where "distinct xs" "set xs = (\<lambda>i. random_index rnd i len) ` {..<T}" "50 \<le> length xs"
    by auto
  then have "50 \<le> card ((\<lambda>i. random_index rnd i len) ` {..<T})"
    using distinct_card [of xs] by simp
  then show ?thesis unfolding yields_distinct_def by blast
qed

text \<open>
  The two concrete sources. A source that repeats one number is no random source, and it
  never gets the sparse branch to 50 different indices: the call does not return.
\<close>

lemma unit_source_const: "0 \<le> r \<Longrightarrow> r < 1 \<Longrightarrow> unit_source (const_source r)"
  by (simp add: unit_source_def const_source_def)

lemma unit_source_cycle: "0 < m \<Longrightarrow> unit_source (cycle_source m)"
  by (simp add: unit_source_def cycle_source_def)

lemma random_index_cycle: "0 < m \<Longrightarrow> random_index (cycle_source m) t m = t mod m"
  by (simp add: random_index_def cycle_source_def)

lemma yields_distinct_cycle:
  assumes "k \<le> m" "0 < m"
  shows "yields_distinct (cycle_source m) m k"
proof -
  have "(\<lambda>t. random_index (cycle_source m) t m) ` {..<k} = {..<k}"
    using assms by (auto simp: random_index_cycle image_iff)
  then have "k \<le> card ((\<lambda>t. random_index (cycle_source m) t m) ` {..<k})" by simp
  then show ?thesis unfolding yields_distinct_def by blast
qed

lemma good_source_const: "0 \<le> r \<Longrightarrow> r < 1 \<Longrightarrow> nfiles < 100 \<Longrightarrow> good_source nfiles (const_source r)"
  by (simp add: good_source_def unit_source_const)

lemma constant_source_diverges: "generateRandomOrder (const_source r) 100 = None"
proof (rule ccontr)
  assume "generateRandomOrder (const_source r) 100 \<noteq> None"
  then obtain xs where "generateRandomOrder (const_source r) 100 = Some xs" by blast
  from sparse_returns_only_if [OF _ this] obtain T
    where T: "50 \<le> card ((\<lambda>i. random_index (const_source r) i 100) ` {..<T})"
    unfolding yields_distinct_def by auto
  have "(\<lambda>i. random_index (const_source r) i 100) ` {..<T} \<subseteq> {nat \<lfloor>r * 100\<rfloor>}"
    by (auto simp: random_index_def const_source_def)
  then have "card ((\<lambda>i. random_index (const_source r) i 100) ` {..<T}) \<le> card {nat \<lfloor>r * 100\<rfloor>}"
    by (rule card_mono [rotated]) simp
  with T show False by simp
qed

lemma generateRandomOrder_sparse_example:
  "generateRandomOrder (cycle_source 100) 100 = Some [0..<50]"
  by code_simp

section \<open>Properties of the navigation and of the clock\<close>

lemma next_image_counter: "next_image rnd nfiles s = Some s' \<Longrightarrow> counter s' = 0"
  by (auto simp: next_image_def split: if_splits option.splits)

lemma next_image_orderIndex: "next_image rnd nfiles s = Some s' \<Longrightarrow> orderIndex s' = orderIndex s + 1"
  by (auto simp: next_image_def split: if_splits option.splits)

lemma next_image_reset: "map_option (\<lambda>s'. s'\<lparr>counter := 0\<rparr>) (next_image rnd nfiles s) = next_image rnd nfiles s"
  by (auto simp: next_image_def split: option.splits)

lemma next_image_url: "next_image rnd nfiles s = Some s' \<Longrightarrow> currentImageUrl s' = currentImageUrl s"
  by (auto simp: next_image_def split: if_splits option.splits)

lemma next_image_returns:
  assumes "good_source nfiles rnd" "1 \<le> nfiles"
  shows "\<exists>s'. next_image rnd nfiles s = Some s'"
proof -
  from generateRandomOrder_nonempty [of rnd nfiles] assms
  obtain chunk where "generateRandomOrder rnd nfiles = Some chunk"
    by (auto simp: good_source_def)
  then show ?thesis by (simp add: next_image_def)
qed

lemma tick_below:
  "real_of_int (counter s) < TICKS_PER_SLIDE timeMS \<Longrightarrow>
   tick rnd nfiles timeMS s = Some (s\<lparr>counter := counter s + 1\<rparr>)"
  by (simp add: tick_def)

lemma tick_full:
  "TICKS_PER_SLIDE timeMS \<le> real_of_int (counter s) \<Longrightarrow>
   tick rnd nfiles timeMS s = next_image rnd nfiles s"
  by (simp add: tick_def next_image_reset)

lemma tick_url: "tick rnd nfiles timeMS s = Some s' \<Longrightarrow> currentImageUrl s' = currentImageUrl s"
  by (auto simp: tick_def dest: next_image_url split: if_splits)

lemma tick_returns:
  assumes "good_source nfiles rnd" "1 \<le> nfiles"
  shows "\<exists>s'. tick rnd nfiles timeMS s = Some s'"
  using next_image_returns [OF assms, of s] by (auto simp: tick_def)

lemma TICKS_PER_SLIDE_30s: "TICKS_PER_SLIDE 30000 = 3000"
  by (simp add: TICKS_PER_SLIDE_def INTERVAL_MS_def)

lemma handleKeyPress_url:
  "handleKeyPress rnd nfiles key s = Some s' \<Longrightarrow> currentImageUrl s' = currentImageUrl s"
  by (auto simp: handleKeyPress_def prev_def dest: next_image_url split: if_splits)

lemma handleKeyPress_returns:
  assumes "good_source nfiles rnd" "1 \<le> nfiles"
  shows "\<exists>s'. handleKeyPress rnd nfiles key s = Some s'"
  using next_image_returns [OF assms, of s] by (auto simp: handleKeyPress_def)

text \<open>The position stays inside the order, and the order keeps holding indices of files.\<close>

lemma next_image_position:
  assumes "position_ok nfiles s" "unit_source rnd" "1 \<le> nfiles" "next_image rnd nfiles s = Some s'"
  shows "position_ok nfiles s'"
proof (cases "orderIndex s = int (length (imageOrder s)) - 1")
  case False
  with assms(4) have "s' = s\<lparr>orderIndex := orderIndex s + 1, counter := 0\<rparr>"
    by (simp add: next_image_def)
  with assms(1) False show ?thesis by (simp add: position_ok_def)
next
  case True
  with assms(4) obtain chunk where c: "generateRandomOrder rnd nfiles = Some chunk"
    and s': "s' = s\<lparr>imageOrder := imageOrder s @ chunk, orderIndex := orderIndex s + 1, counter := 0\<rparr>"
    by (auto simp: next_image_def split: option.splits)
  from generateRandomOrder_partial [OF c assms(2,3)]
  have "set chunk \<subseteq> {..<nfiles}" "0 < length chunk"
    using assms(3) by (simp_all add: MAX_RANDOM_LEN_def)
  then show ?thesis using assms(1) True unfolding s' position_ok_def
    by (auto simp: list_all_iff)
qed

lemma prev_position: "position_ok nfiles s \<Longrightarrow> position_ok nfiles (prev s)"
  by (auto simp: position_ok_def prev_def)

lemma tick_position:
  assumes "position_ok nfiles s" "unit_source rnd" "1 \<le> nfiles" "tick rnd nfiles timeMS s = Some s'"
  shows "position_ok nfiles s'"
proof (cases "TICKS_PER_SLIDE timeMS \<le> real_of_int (counter s)")
  case True
  with assms(4) have "next_image rnd nfiles s = Some s'" by (simp add: tick_full)
  then show ?thesis by (rule next_image_position [OF assms(1,2,3)])
next
  case False
  with assms(4) have "s' = s\<lparr>counter := counter s + 1\<rparr>" by (simp add: tick_def)
  with assms(1) show ?thesis by (simp add: position_ok_def)
qed

lemma handleKeyPress_position:
  assumes "position_ok nfiles s" "unit_source rnd" "1 \<le> nfiles"
    "handleKeyPress rnd nfiles key s = Some s'"
  shows "position_ok nfiles s'"
proof -
  consider "key = ''ArrowRight''" | "key \<noteq> ''ArrowRight''" "key = ''ArrowLeft''"
    | "key \<noteq> ''ArrowRight''" "key \<noteq> ''ArrowLeft''" by blast
  then show ?thesis
  proof cases
    case 1
    with assms(4) have "next_image rnd nfiles s = Some s'" by (simp add: handleKeyPress_def)
    then show ?thesis by (rule next_image_position [OF assms(1,2,3)])
  next
    case 2
    with assms(4) have "s' = prev s" by (simp add: handleKeyPress_def)
    then show ?thesis using prev_position [OF assms(1)] by simp
  next
    case 3
    with assms(4) have "s' = s \<or> s' = s\<lparr>pause := \<not> pause s\<rparr>"
      by (auto simp: handleKeyPress_def split: if_splits)
    with assms(1) show ?thesis by (auto simp: position_ok_def)
  qed
qed

lemma update_position:
  assumes "position_ok nfiles (state w)" "unit_source rnd" "1 \<le> nfiles"
    "update ev rnd nfiles timeMS w = Some s'"
  shows "position_ok nfiles s'"
proof (cases ev)
  case IntervalElapsed
  with assms(4) have "s' = state w \<or> tick rnd nfiles timeMS (state w) = Some s'"
    by (auto simp: update_def Let_def split: if_splits)
  then show ?thesis using assms(1) tick_position [OF assms(1,2,3)] by blast
next
  case (KeyDown key)
  with assms(4) have "s' = state w \<or> handleKeyPress rnd nfiles key (state w) = Some s'"
    by (auto simp: update_def Let_def split: if_splits)
  then show ?thesis using assms(1) handleKeyPress_position [OF assms(1,2,3)] by blast
next
  case ClickNext
  with assms(4) have "s' = state w \<or> next_image rnd nfiles (state w) = Some s'"
    by (auto simp: update_def Let_def split: if_splits)
  then show ?thesis using assms(1) next_image_position [OF assms(1,2,3)] by blast
next
  case ClickPrev
  with assms(4) have "s' = state w \<or> s' = prev (state w)"
    by (auto simp: update_def Let_def split: if_splits)
  then show ?thesis using assms(1) prev_position [OF assms(1)] by auto
next
  case ClickPause
  with assms(4) assms(1) show ?thesis
    by (auto simp: update_def Let_def position_ok_def split: if_splits)
next
  case ClickMute
  with assms(4) assms(1) show ?thesis
    by (auto simp: update_def Let_def position_ok_def split: if_splits)
next
  case ClickView
  with assms(4) assms(1) show ?thesis
    by (auto simp: update_def Let_def position_ok_def split: if_splits)
qed

lemma update_url:
  "update ev rnd nfiles timeMS w = Some s' \<Longrightarrow> currentImageUrl s' = currentImageUrl (state w)"
  by (cases ev)
     (auto simp: update_def Let_def prev_def dest: next_image_url tick_url handleKeyPress_url split: if_splits)

lemma update_returns:
  assumes "good_source nfiles rnd" "1 \<le> nfiles"
  shows "\<exists>s'. update ev rnd nfiles timeMS w = Some s'"
  using next_image_returns [OF assms, of "state w"] tick_returns [OF assms, of timeMS "state w"]
    handleKeyPress_returns [OF assms, of _ "state w"]
  by (cases ev) (simp_all add: update_def Let_def)

section \<open>Properties of a session\<close>

text \<open>The effect and its cleanup.\<close>

lemma cleanup_idle:
  assumes "resources_ok w"
  shows "idle_browser (cleanup (eff w) (env w))"
    and "revocations (cleanup (eff w) (env w)) = revocations (env w) @ [effUrl (eff w)]"
    and "objectURLs (cleanup (eff w) (env w)) = [0]"
  using assms
  by (auto simp: resources_ok_def idle_browser_def cleanup_def revokeObjectURL_def
      clearInterval_def removeKeydownListener_def Let_def list_all_iff split: option.splits)

lemma run_effect_resources:
  assumes "idle_browser b" "run_effect nfiles s b = Inr w"
  shows "resources_ok w" and "state w = s\<lparr>currentImageUrl := nextHandle b\<rparr>"
  using assms
  by (auto simp: resources_ok_def idle_browser_def run_effect_def createObjectURL_def
      setInterval_def addKeydownListener_def Let_def list_all_iff
      split: option.splits if_splits)

lemma file_at_order_at:
  "position_ok nfiles s \<Longrightarrow>
   file_at nfiles (order_at (imageOrder s) (orderIndex s)) = Some (imageOrder s ! nat (orderIndex s))"
  by (auto simp: position_ok_def file_at_def order_at_def list_all_length)

lemma run_effect_returns:
  "position_ok nfiles s \<Longrightarrow> \<exists>w. run_effect nfiles s b = Inr w"
  by (simp add: run_effect_def file_at_order_at createObjectURL_def setInterval_def
      addKeydownListener_def Let_def)

lemma run_effect_state:
  "run_effect nfiles s b = Inr w \<Longrightarrow> \<exists>u. state w = s\<lparr>currentImageUrl := u\<rparr>"
  by (auto simp: run_effect_def createObjectURL_def setInterval_def addKeydownListener_def Let_def
      split: option.splits if_splits)

lemma rerender_state:
  assumes "rerender nfiles w s' = Inr w'"
  shows "\<exists>u. state w' = s'\<lparr>currentImageUrl := u\<rparr>"
proof (cases "orderIndex s' \<noteq> orderIndex (state w) \<or> pause s' \<noteq> pause (state w)")
  case True
  with assms have "run_effect nfiles s' (cleanup (eff w) (env w)) = Inr w'"
    by (simp add: rerender_def)
  then show ?thesis by (rule run_effect_state)
next
  case False
  with assms have "w' = w\<lparr>state := s'\<rparr>" by (simp add: rerender_def)
  then have "state w' = s'\<lparr>currentImageUrl := currentImageUrl s'\<rparr>" by simp
  then show ?thesis by blast
qed

lemma rerender_resources:
  assumes "resources_ok w" "currentImageUrl s' = currentImageUrl (state w)"
    "rerender nfiles w s' = Inr w'"
  shows "resources_ok w'"
proof (cases "orderIndex s' \<noteq> orderIndex (state w) \<or> pause s' \<noteq> pause (state w)")
  case True
  with assms(3) have "run_effect nfiles s' (cleanup (eff w) (env w)) = Inr w'"
    by (simp add: rerender_def)
  from run_effect_resources(1) [OF cleanup_idle(1) [OF assms(1)] this] show ?thesis .
next
  case False
  with assms(3) have "w' = w\<lparr>state := s'\<rparr>" by (simp add: rerender_def)
  with assms(1,2) False show ?thesis by (simp add: resources_ok_def)
qed

lemma rerender_returns:
  assumes "position_ok nfiles s'"
  shows "\<exists>w'. rerender nfiles w s' = Inr w'"
  using run_effect_returns [OF assms] by (simp add: rerender_def)

lemma position_ok_url: "position_ok nfiles (s\<lparr>currentImageUrl := u\<rparr>) = position_ok nfiles s"
  by (simp add: position_ok_def)

lemma rerender_position:
  assumes "rerender nfiles w s' = Inr w'" "position_ok nfiles s'"
  shows "position_ok nfiles (state w')"
proof -
  from rerender_state [OF assms(1)] obtain u where "state w' = s'\<lparr>currentImageUrl := u\<rparr>" by blast
  then show ?thesis using assms(2) by (simp add: position_ok_url)
qed

text \<open>
  The invariants hold after the mount and after every event. On no file at all the mount
  fails where it creates the initial URL, after the generator has returned the empty order.
\<close>

lemma step_resources:
  assumes "resources_ok w" "step nfiles timeMS e w = Inr w'"
  shows "resources_ok w'"
proof -
  from assms(2) obtain s' where u: "update (fst e) (snd e) nfiles timeMS w = Some s'"
    and r: "rerender nfiles w s' = Inr w'"
    by (auto simp: step_def split: option.splits)
  from rerender_resources [OF assms(1) update_url [OF u] r] show ?thesis .
qed

lemma run_resources:
  "resources_ok w \<Longrightarrow> run nfiles timeMS es w = Inr w' \<Longrightarrow> resources_ok w'"
proof (induction es arbitrary: w)
  case Nil
  then show ?case by simp
next
  case (Cons e es)
  from Cons.prems(2) obtain w1 where s: "step nfiles timeMS e w = Inr w1"
    and r: "run nfiles timeMS es w1 = Inr w'"
    by (auto split: sum.splits)
  from Cons.IH [OF step_resources [OF Cons.prems(1) s] r] show ?case .
qed

lemma createObjectURL_fresh:
  "0 < nfiles \<Longrightarrow> createObjectURL (file_at nfiles (Some 0)) fresh_browser =
     Inr (0, fresh_browser\<lparr>objectURLs := [0], nextHandle := 1\<rparr>)"
  by (simp add: createObjectURL_def file_at_def fresh_browser_def)

lemma mount_cases:
  assumes "mount rnd nfiles = Inr w"
  obtains order where "generateRandomOrder rnd nfiles = Some order" "0 < nfiles"
    "run_effect nfiles
       \<lparr>imageOrder = order, orderIndex = 0, currentImageUrl = 0,
        showOverlay = False, pause = False, mute = False, counter = 0\<rparr>
       (fresh_browser\<lparr>objectURLs := [0], nextHandle := 1\<rparr>) = Inr w"
proof -
  from assms obtain order where o: "generateRandomOrder rnd nfiles = Some order"
    by (auto simp: mount_def split: option.splits)
  have n: "0 < nfiles"
  proof (rule ccontr)
    assume "\<not> 0 < nfiles"
    then have "createObjectURL (file_at nfiles (Some 0)) fresh_browser = Inl TypeError"
      by (simp add: createObjectURL_def file_at_def)
    with assms o show False by (simp add: mount_def)
  qed
  from assms o createObjectURL_fresh [OF n] that [OF o n] show thesis
    by (simp add: mount_def)
qed

lemma mount_empty: "mount rnd 0 = Inl TypeError"
proof -
  have "generateRandomOrder rnd 0 = Some []"
    unfolding generateRandomOrder_def Let_def dense_iff by (simp add: sample_loop.simps)
  then show ?thesis by (simp add: mount_def createObjectURL_def file_at_def)
qed

lemma mount_resources:
  assumes "mount rnd nfiles = Inr w"
  shows "resources_ok w"
proof -
  from assms obtain order where
    r: "run_effect nfiles
       \<lparr>imageOrder = order, orderIndex = 0, currentImageUrl = 0,
        showOverlay = False, pause = False, mute = False, counter = 0\<rparr>
       (fresh_browser\<lparr>objectURLs := [0], nextHandle := 1\<rparr>) = Inr w"
    by (rule mount_cases)
  have "idle_browser (fresh_browser\<lparr>objectURLs := [0], nextHandle := 1\<rparr>)"
    by (simp add: idle_browser_def fresh_browser_def)
  from run_effect_resources(1) [OF this r] show ?thesis .
qed

lemma session_resources:
  assumes "session rnd nfiles timeMS es = Inr w"
  shows "resources_ok w"
proof -
  from assms obtain w0 where m: "mount rnd nfiles = Inr w0" and r: "run nfiles timeMS es w0 = Inr w"
    by (auto simp: session_def split: sum.splits)
  from run_resources [OF mount_resources [OF m] r] show ?thesis .
qed

lemma step_position:
  assumes "position_ok nfiles (state w)" "unit_source (snd e)" "1 \<le> nfiles"
    "step nfiles timeMS e w = Inr w'"
  shows "position_ok nfiles (state w')"
proof -
  from assms(4) obtain s' where u: "update (fst e) (snd e) nfiles timeMS w = Some s'"
    and r: "rerender nfiles w s' = Inr w'"
    by (auto simp: step_def split: option.splits)
  from rerender_position [OF r update_position [OF assms(1,2,3) u]] show ?thesis .
qed

lemma run_position:
  "position_ok nfiles (state w) \<Longrightarrow> list_all (\<lambda>e. unit_source (snd e)) es \<Longrightarrow> 1 \<le> nfiles \<Longrightarrow>
   run nfiles timeMS es w = Inr w' \<Longrightarrow> position_ok nfiles (state w')"
proof (induction es arbitrary: w)
  case Nil
  then show ?case by simp
next
  case (Cons e es)
  from Cons.prems(4) obtain w1 where s: "step nfiles timeMS e w = Inr w1"
    and r: "run nfiles timeMS es w1 = Inr w'"
    by (auto split: sum.splits)
  from Cons.prems(2) have e: "unit_source (snd e)" and es: "list_all (\<lambda>e. unit_source (snd e)) es"
    by simp_all
  from Cons.IH [OF step_position [OF Cons.prems(1) e Cons.prems(3) s] es Cons.prems(3) r]
  show ?case .
qed

lemma mount_position:
  assumes "mount rnd nfiles = Inr w" "unit_source rnd"
  shows "1 \<le> nfiles" and "position_ok nfiles (state w)"
proof -
  from assms(1) obtain order where o: "generateRandomOrder rnd nfiles = Some order" and n: "0 < nfiles"
    and r: "run_effect nfiles
       \<lparr>imageOrder = order, orderIndex = 0, currentImageUrl = 0,
        showOverlay = False, pause = False, mute = False, counter = 0\<rparr>
       (fresh_browser\<lparr>objectURLs := [0], nextHandle := 1\<rparr>) = Inr w"
    by (rule mount_cases)
  from n show n1: "1 \<le> nfiles" by simp
  from generateRandomOrder_partial [OF o assms(2) n1]
  have "set order \<subseteq> {..<nfiles}" "0 < length order"
    using n by (simp_all add: MAX_RANDOM_LEN_def)
  then have "position_ok nfiles
       \<lparr>imageOrder = order, orderIndex = 0, currentImageUrl = 0,
        showOverlay = False, pause = False, mute = False, counter = 0\<rparr>"
    by (auto simp: position_ok_def list_all_iff)
  moreover from run_effect_state [OF r] obtain u where
    "state w = \<lparr>imageOrder = order, orderIndex = 0, currentImageUrl = 0,
        showOverlay = False, pause = False, mute = False, counter = 0\<rparr>\<lparr>currentImageUrl := u\<rparr>"
    by blast
  ultimately show "position_ok nfiles (state w)" by (simp add: position_ok_def)
qed

lemma session_position:
  assumes "session rnd nfiles timeMS es = Inr w" "unit_source rnd"
    "list_all (\<lambda>e. unit_source (snd e)) es"
  shows "1 \<le> nfiles" and "position_ok nfiles (state w)"
proof -
  from assms(1) obtain w0 where m: "mount rnd nfiles = Inr w0" and r: "run nfiles timeMS es w0 = Inr w"
    by (auto simp: session_def split: sum.splits)
  from mount_position [OF m assms(2)] show n: "1 \<le> nfiles" by simp
  from run_position [OF mount_position(2) [OF m assms(2)] assms(3) n r]
  show "position_ok nfiles (state w)" .
qed

text \<open>
  No event fails: on at least one file and with sources under which the generator
  returns, the mount and every event after it are handled to the end.
\<close>

lemma step_returns:
  assumes "position_ok nfiles (state w)" "good_source nfiles (snd e)" "1 \<le> nfiles"
  shows "\<exists>w'. step nfiles timeMS e w = Inr w'"
proof -
  from update_returns [OF assms(2,3)]
  obtain s' where u: "update (fst e) (snd e) nfiles timeMS w = Some s'" by blast
  from assms(2) have "unit_source (snd e)" by (simp add: good_source_def)
  from update_position [OF assms(1) this assms(3) u] have "position_ok nfiles s'" .
  from rerender_returns [OF this] u show ?thesis by (simp add: step_def)
qed

lemma run_returns:
  "position_ok nfiles (state w) \<Longrightarrow> list_all (\<lambda>e. good_source nfiles (snd e)) es \<Longrightarrow> 1 \<le> nfiles \<Longrightarrow>
   \<exists>w'. run nfiles timeMS es w = Inr w'"
proof (induction es arbitrary: w)
  case Nil
  then show ?case by simp
next
  case (Cons e es)
  from Cons.prems(2) have e: "good_source nfiles (snd e)"
    and es: "list_all (\<lambda>e. good_source nfiles (snd e)) es" by simp_all
  from step_returns [OF Cons.prems(1) e Cons.prems(3)]
  obtain w1 where s: "step nfiles timeMS e w = Inr w1" by blast
  from e have "unit_source (snd e)" by (simp add: good_source_def)
  from step_position [OF Cons.prems(1) this Cons.prems(3) s] have "position_ok nfiles (state w1)" .
  from Cons.IH [OF this es Cons.prems(3)] s show ?case by simp
qed

lemma mount_returns:
  assumes "good_source nfiles rnd" "1 \<le> nfiles"
  shows "\<exists>w. mount rnd nfiles = Inr w"
proof -
  from generateRandomOrder_nonempty [of rnd nfiles] assms
  obtain order where o: "generateRandomOrder rnd nfiles = Some order" "order \<noteq> []"
    "\<forall>x \<in> set order. x < nfiles"
    by (auto simp: good_source_def)
  let ?s = "\<lparr>imageOrder = order, orderIndex = 0, currentImageUrl = 0,
        showOverlay = False, pause = False, mute = False, counter = 0\<rparr>"
  have "position_ok nfiles ?s" using o(2,3) by (simp add: position_ok_def list_all_iff)
  from run_effect_returns [OF this] o(1) createObjectURL_fresh [of nfiles] assms(2)
  show ?thesis by (simp add: mount_def)
qed

lemma session_returns:
  assumes "1 \<le> nfiles" "good_source nfiles rnd" "list_all (\<lambda>e. good_source nfiles (snd e)) es"
  shows "\<exists>w. session rnd nfiles timeMS es = Inr w"
proof -
  from mount_returns [OF assms(2,1)] obtain w0 where m: "mount rnd nfiles = Inr w0" by blast
  from assms(2) have "unit_source rnd" by (simp add: good_source_def)
  from mount_position(2) [OF m this] have "position_ok nfiles (state w0)" .
  from run_returns [OF this assms(3,1)] m show ?thesis by (simp add: session_def)
qed

text \<open>The two concrete sessions, the unmount, and the pause.\<close>

lemma demo_session: "session (const_source (1/2)) 3 30000 demo_events = Inr demo_world"
  by code_simp

lemma paused_session: "session (const_source (1/2)) 3 30000 paused_events = Inr paused_world"
  by code_simp

lemma count_list_older: "list_all (\<lambda>u. u < x) xs \<Longrightarrow> count_list xs (x::nat) = 0"
  by (induction xs) auto

lemma unmount_resources:
  assumes "resources_ok w"
  shows "intervals (unmount w) = []" "keydownListeners (unmount w) = []"
    "objectURLs (unmount w) = [0]"
    "revocations (unmount w) = revocations (env w) @ [effUrl (eff w)]"
  using cleanup_idle [OF assms] by (simp_all add: unmount_def idle_browser_def)

lemma paused_tick:
  assumes "resources_ok w" "pause (state w)"
  shows "step nfiles timeMS (IntervalElapsed, rnd) w = Inr w"
proof -
  from assms have "intervals (env w) = []" by (auto simp: resources_ok_def)
  then show ?thesis by (simp add: step_def update_def rerender_def)
qed

lemma paused_ticks:
  assumes "resources_ok w" "pause (state w)"
  shows "run nfiles timeMS (map (Pair IntervalElapsed) rnds) w = Inr w"
  by (induction rnds) (simp_all add: paused_tick [OF assms])

lemma toggle_pause_step:
  assumes "resources_ok w" "position_ok nfiles (state w)"
  shows "\<exists>w'. step nfiles timeMS (KeyDown '' '', rnd) w = Inr w' \<and>
              pause (state w') = (\<not> pause (state w)) \<and>
              orderIndex (state w') = orderIndex (state w) \<and>
              counter (state w') = counter (state w) \<and>
              imageOrder (state w') = imageOrder (state w) \<and>
              mute (state w') = mute (state w) \<and>
              showOverlay (state w') = showOverlay (state w) \<and>
              (intervals (env w') = []) = pause (state w')"
proof -
  let ?s = "(state w)\<lparr>pause := \<not> pause (state w)\<rparr>"
  from assms(1) have "keydownListeners (env w) \<noteq> []" by (simp add: resources_ok_def)
  then have u: "update (KeyDown '' '') rnd nfiles timeMS w = Some ?s"
    by (simp add: update_def handleKeyPress_def Let_def)
  from assms(2) have "position_ok nfiles ?s" by (simp add: position_ok_def)
  from rerender_returns [OF this] obtain w' where r: "rerender nfiles w ?s = Inr w'" by blast
  from u r have s: "step nfiles timeMS (KeyDown '' '', rnd) w = Inr w'" by (simp add: step_def)
  from step_resources [OF assms(1) s] have "resources_ok w'" .
  then have "(intervals (env w') = []) = pause (state w')"
    by (auto simp: resources_ok_def split: option.splits)
  moreover from rerender_state [OF r] obtain u where "state w' = ?s\<lparr>currentImageUrl := u\<rparr>"
    by blast
  then have "pause (state w') = (\<not> pause (state w))" "orderIndex (state w') = orderIndex (state w)"
    "counter (state w') = counter (state w)" "imageOrder (state w') = imageOrder (state w)"
    "mute (state w') = mute (state w)" "showOverlay (state w') = showOverlay (state w)"
    by simp_all
  ultimately show ?thesis using s by blast
qed

text \<open>Ticks in a world whose timer is active.\<close>

lemma mount_three: "mount (const_source (1/2)) 3 = Inr (mounted_world 0)"
  by code_simp

lemma run_append:
  "run nfiles timeMS (as @ bs) w =
     (case run nfiles timeMS as w of Inl f \<Rightarrow> Inl f | Inr w' \<Rightarrow> run nfiles timeMS bs w')"
  by (induction as arbitrary: w) (auto split: sum.splits)

lemma world_tick_below:
  assumes "intervals (env w) \<noteq> []" "real_of_int (counter (state w)) < TICKS_PER_SLIDE timeMS"
  shows "step nfiles timeMS (IntervalElapsed, rnd) w =
           Inr (w\<lparr>state := (state w)\<lparr>counter := counter (state w) + 1\<rparr>\<rparr>)"
  using assms by (simp add: step_def update_def tick_below rerender_def)

lemma world_tick_full:
  assumes "intervals (env w) \<noteq> []" "TICKS_PER_SLIDE timeMS \<le> real_of_int (counter (state w))"
  shows "step nfiles timeMS (IntervalElapsed, rnd) w =
           (case next_image rnd nfiles (state w) of
              None \<Rightarrow> Inl NoReturn
            | Some s' \<Rightarrow> rerender nfiles w s')"
  using assms by (simp add: step_def update_def tick_full)

lemma world_ticks_count:
  "intervals (env w) \<noteq> [] \<Longrightarrow>
   real_of_int (counter (state w)) + real (length rnds) \<le> TICKS_PER_SLIDE timeMS \<Longrightarrow>
   run nfiles timeMS (map (Pair IntervalElapsed) rnds) w =
     Inr (w\<lparr>state := (state w)\<lparr>counter := counter (state w) + int (length rnds)\<rparr>\<rparr>)"
proof (induction rnds arbitrary: w)
  case Nil
  then show ?case by simp
next
  case (Cons rnd rnds)
  let ?w = "w\<lparr>state := (state w)\<lparr>counter := counter (state w) + 1\<rparr>\<rparr>"
  from Cons.prems have b: "real_of_int (counter (state w)) < TICKS_PER_SLIDE timeMS" by simp
  have s: "step nfiles timeMS (IntervalElapsed, rnd) w = Inr ?w"
    by (rule world_tick_below [OF Cons.prems(1) b])
  have "intervals (env ?w) \<noteq> []" using Cons.prems(1) by simp
  moreover have "real_of_int (counter (state ?w)) + real (length rnds) \<le> TICKS_PER_SLIDE timeMS"
    using Cons.prems(2) by simp
  ultimately have "run nfiles timeMS (map (Pair IntervalElapsed) rnds) ?w =
     Inr (?w\<lparr>state := (state ?w)\<lparr>counter := counter (state ?w) + int (length rnds)\<rparr>\<rparr>)"
    by (rule Cons.IH)
  with s show ?case by (simp add: add.assoc)
qed

lemma timer_active:
  assumes "resources_ok w" "\<not> pause (state w)"
  shows "intervals (env w) \<noteq> []"
  using assms by (auto simp: resources_ok_def split: option.splits)

lemma step_next_state:
  assumes "rerender nfiles w s' = Inr w'" "next_image rnd nfiles (state w) = Some s'"
  shows "orderIndex (state w') = orderIndex (state w) + 1" "counter (state w') = 0"
proof -
  from rerender_state [OF assms(1)] obtain u where "state w' = s'\<lparr>currentImageUrl := u\<rparr>" by blast
  then show "orderIndex (state w') = orderIndex (state w) + 1" "counter (state w') = 0"
    using next_image_orderIndex [OF assms(2)] next_image_counter [OF assms(2)] by simp_all
qed

section \<open>Properties of the window fitter\<close>

text \<open>
  The size requested is the scaled size of the image plus the frame. The centre of the
  rectangle requested lies left of and above the centre of the window by half the frame,
  whatever the image.
\<close>

lemma resizeWindow_size:
  "fst (resizeWindow width height maxWidth maxHeight window) =
     (width * min (maxWidth / width) (maxHeight / height) + (outerWidth window - innerWidth window),
      height * min (maxWidth / width) (maxHeight / height) + (outerHeight window - innerHeight window))"
  by (simp add: resizeWindow_def Let_def)

lemma resizeWindow_center_shift:
  "requested_center (resizeWindow width height maxWidth maxHeight window) =
     (fst (current_center window) - (outerWidth window - innerWidth window) / 2,
      snd (current_center window) - (outerHeight window - innerHeight window) / 2)"
  by (simp add: resizeWindow_def requested_center_def current_center_def Let_def field_simps)

section \<open>The generator's contract\<close>

text \<open>
  C1. For every length of at least 1, \<^verbatim>\<open>generateRandomOrder\<close> returns indices that all lie
  in \<open>[0, length)\<close> and are pairwise distinct, and their number is between 1 and
  \<open>min(50, length)\<close>. \<^verbatim>\<open>Math.random()\<close> keeps its contract, and when the sparse branch runs
  (a length of 100 or more) its draws do produce 50 different indices at some point: the
  loop of that branch has no other exit (\<open>sparse_returns_only_if\<close>).
\<close>

theorem generateRandomOrder_indices:
  assumes "1 \<le> len" and "unit_source rnd"
    and "100 \<le> len \<longrightarrow> yields_distinct rnd len 50"
  shows "\<exists>xs. generateRandomOrder rnd len = Some xs \<and> (\<forall>x \<in> set xs. x < len) \<and> distinct xs \<and>
              1 \<le> length xs \<and> length xs \<le> min 50 len"
proof -
  from generateRandomOrder_result [OF assms(2,1)] assms(3)
  obtain xs where xs: "generateRandomOrder rnd len = Some xs" "distinct xs"
    "set xs \<subseteq> {..<len}" "length xs = min MAX_RANDOM_LEN len"
    unfolding MAX_RANDOM_LEN_def by blast
  have "1 \<le> length xs" "length xs \<le> min 50 len"
    using xs(4) assms(1) by (simp_all add: MAX_RANDOM_LEN_def)
  moreover have "\<forall>x \<in> set xs. x < len" using xs(3) by auto
  ultimately show ?thesis using xs(1,2) by blast
qed

text \<open>The sparse branch, on 100 files and a source that cycles through all of them.\<close>

theorem generateRandomOrder_indices_witness:
  "1 \<le> (100::nat) \<and> unit_source (cycle_source 100) \<and> yields_distinct (cycle_source 100) 100 50 \<and>
   (\<exists>xs. generateRandomOrder (cycle_source 100) 100 = Some xs \<and> (\<forall>x \<in> set xs. x < 100) \<and>
         distinct xs \<and> 1 \<le> length xs \<and> length xs \<le> min 50 100)"
proof -
  have u: "unit_source (cycle_source 100)" by (rule unit_source_cycle) simp
  have y: "yields_distinct (cycle_source 100) 100 50" by (rule yields_distinct_cycle) simp_all
  from generateRandomOrder_indices [of 100 "cycle_source 100"] u y
  show ?thesis by simp
qed

section \<open>Navigation\<close>

text \<open>
  C2. \<^verbatim>\<open>next\<close>: at the last position of the order it appends a newly generated chunk to the
  order and moves to the position after the old end, which lies in the appended chunk;
  at every other position it only moves one position on; in both cases the counter is 0
  afterwards. The new chunk is there when the generator returns, which it does for a
  collection of at least one file under the conditions on \<^verbatim>\<open>Math.random()\<close> of C1.
\<close>

theorem next_image_spec:
  "(orderIndex s \<noteq> int (length (imageOrder s)) - 1 \<longrightarrow>
      next_image rnd nfiles s = Some (s\<lparr>orderIndex := orderIndex s + 1, counter := 0\<rparr>)) \<and>
   (orderIndex s = int (length (imageOrder s)) - 1 \<and> 1 \<le> nfiles \<and> unit_source rnd \<and>
      (100 \<le> nfiles \<longrightarrow> yields_distinct rnd nfiles 50) \<longrightarrow>
      (\<exists>chunk. generateRandomOrder rnd nfiles = Some chunk \<and>
         next_image rnd nfiles s =
           Some (s\<lparr>imageOrder := imageOrder s @ chunk, orderIndex := orderIndex s + 1, counter := 0\<rparr>) \<and>
         int (length (imageOrder s)) \<le> orderIndex s + 1 \<and>
         orderIndex s + 1 < int (length (imageOrder s @ chunk)))) \<and>
   (\<forall>s'. next_image rnd nfiles s = Some s' \<longrightarrow> counter s' = 0)"
proof (intro conjI impI allI)
  assume "orderIndex s \<noteq> int (length (imageOrder s)) - 1"
  then show "next_image rnd nfiles s = Some (s\<lparr>orderIndex := orderIndex s + 1, counter := 0\<rparr>)"
    by (simp add: next_image_def)
next
  assume a: "orderIndex s = int (length (imageOrder s)) - 1 \<and> 1 \<le> nfiles \<and> unit_source rnd \<and>
      (100 \<le> nfiles \<longrightarrow> yields_distinct rnd nfiles 50)"
  then obtain chunk where c: "generateRandomOrder rnd nfiles = Some chunk" "chunk \<noteq> []"
    using generateRandomOrder_nonempty [of rnd nfiles] by blast
  have "0 < length chunk" using c(2) by simp
  with a c(1) show "\<exists>chunk. generateRandomOrder rnd nfiles = Some chunk \<and>
         next_image rnd nfiles s =
           Some (s\<lparr>imageOrder := imageOrder s @ chunk, orderIndex := orderIndex s + 1, counter := 0\<rparr>) \<and>
         int (length (imageOrder s)) \<le> orderIndex s + 1 \<and>
         orderIndex s + 1 < int (length (imageOrder s @ chunk))"
    by (simp add: next_image_def)
next
  fix s' assume "next_image rnd nfiles s = Some s'"
  then show "counter s' = 0" by (rule next_image_counter)
qed

text \<open>Position 0 of 3 (not the last) and position 2 of 3 (the last), on 3 files.\<close>

theorem next_image_spec_witness:
  "orderIndex (slide 0 7) \<noteq> int (length (imageOrder (slide 0 7))) - 1 \<and>
   next_image (const_source (1/2)) 3 (slide 0 7) = Some (slide 1 0) \<and>
   orderIndex (slide 2 7) = int (length (imageOrder (slide 2 7))) - 1 \<and> 1 \<le> (3::nat) \<and>
   unit_source (const_source (1/2)) \<and>
   next_image (const_source (1/2)) 3 (slide 2 7) = Some ((slide 3 0)\<lparr>imageOrder := [1, 2, 0, 1, 2, 0]\<rparr>) \<and>
   counter (slide 1 0) = 0"
proof -
  have u: "unit_source (const_source (1/2))" by (rule unit_source_const) simp_all
  have e: "generateRandomOrder (const_source (1/2)) 3 = Some [1, 2, 0]" by code_simp
  from next_image_spec [of "slide 0 7" "const_source (1/2)" 3]
  have a: "next_image (const_source (1/2)) 3 (slide 0 7) = Some (slide 1 0)"
    by (simp add: slide_def)
  from next_image_spec [of "slide 2 7" "const_source (1/2)" 3] u e
  have b: "next_image (const_source (1/2)) 3 (slide 2 7) = Some ((slide 3 0)\<lparr>imageOrder := [1, 2, 0, 1, 2, 0]\<rparr>)"
    by (simp add: slide_def)
  from a b u show ?thesis by (simp add: slide_def)
qed

section \<open>The clock\<close>

text \<open>
  C3 says that with 3000 ticks per slide the position has advanced and the counter is back
  at 0 after exactly 3000 ticks from a counter of 0. The timer advances when it finds the
  counter at 3000 or more, and 3000 ticks take the counter from 0 to 3000: in the session
  on three files with 30000 ms per slide, after the mount and exactly 3000 ticks the
  position is still 0 and the counter is 3000.
\<close>

theorem session_3000_ticks_no_advance:
  "session (const_source (1/2)) 3 30000 (replicate 3000 (IntervalElapsed, const_source (1/2))) =
     Inr (mounted_world 3000) \<and>
   orderIndex (state (mounted_world 3000)) = 0 \<and> counter (state (mounted_world 3000)) = 3000"
proof -
  have t: "intervals (env (mounted_world 0)) \<noteq> []" by (simp add: mounted_world_def)
  have "run 3 30000 (map (Pair IntervalElapsed) (replicate 3000 (const_source (1/2)))) (mounted_world 0) =
      Inr ((mounted_world 0)\<lparr>state := (state (mounted_world 0))\<lparr>counter :=
        counter (state (mounted_world 0)) + int (length (replicate 3000 (const_source (1/2)::source)))\<rparr>\<rparr>)"
    by (rule world_ticks_count [OF t]) (simp add: TICKS_PER_SLIDE_30s mounted_world_def slide_def)
  then have "run 3 30000 (replicate 3000 (IntervalElapsed, const_source (1/2))) (mounted_world 0) =
      Inr (mounted_world 3000)"
    by (simp add: mounted_world_def slide_def)
  then show ?thesis by (simp add: session_def mount_three) (simp add: mounted_world_def slide_def)
qed

text \<open>
  C3, as the code has it. On each tick, if the counter is at \<^verbatim>\<open>TICKS_PER_SLIDE\<close> or above,
  the timer calls \<^verbatim>\<open>next\<close> and sets the counter to 0, else it adds 1 to the counter. So
  in the world of any session that is not paused and has the counter at 0, with \<open>n\<close>
  ticks per slide and no navigation in between, \<open>n\<close> ticks change nothing but the counter,
  which is \<open>n\<close> after them, and tick \<open>n + 1\<close> is handled to the end and leaves the position
  advanced by 1 and the counter at 0. For 30000 ms per slide that is tick 3001. The
  sources keep the contract of \<^verbatim>\<open>Math.random()\<close>, and under the one of the last tick the
  generator returns.
\<close>

theorem tick_slide_cycle:
  assumes "session rnd0 nfiles timeMS es = Inr w" and "unit_source rnd0"
    and "list_all (\<lambda>e. unit_source (snd e)) es"
    and "\<not> pause (state w)" and "counter (state w) = 0"
    and "TICKS_PER_SLIDE timeMS = real n" and "length rnds = n" and "good_source nfiles rnd"
  shows "(TICKS_PER_SLIDE timeMS \<le> real_of_int (counter x) \<longrightarrow>
            tick rnd nfiles timeMS x = map_option (\<lambda>x'. x'\<lparr>counter := 0\<rparr>) (next_image rnd nfiles x)) \<and>
         (real_of_int (counter x) < TICKS_PER_SLIDE timeMS \<longrightarrow>
            tick rnd nfiles timeMS x = Some (x\<lparr>counter := counter x + 1\<rparr>)) \<and>
         run nfiles timeMS (map (Pair IntervalElapsed) rnds) w =
           Inr (w\<lparr>state := (state w)\<lparr>counter := int n\<rparr>\<rparr>) \<and>
         (\<exists>w'. run nfiles timeMS (map (Pair IntervalElapsed) (rnds @ [rnd])) w = Inr w' \<and>
               orderIndex (state w') = orderIndex (state w) + 1 \<and> counter (state w') = 0)"
proof -
  let ?w = "w\<lparr>state := (state w)\<lparr>counter := int n\<rparr>\<rparr>"
  from session_resources [OF assms(1)] have r: "resources_ok w" .
  from session_position [OF assms(1,2,3)] have n: "1 \<le> nfiles" and p: "position_ok nfiles (state w)"
    by simp_all
  from timer_active [OF r assms(4)] have t: "intervals (env w) \<noteq> []" .
  have run: "run nfiles timeMS (map (Pair IntervalElapsed) rnds) w = Inr ?w"
    using world_ticks_count [OF t, of rnds timeMS nfiles] assms(5,6,7) by simp
  from next_image_returns [OF assms(8) n] obtain s' where s': "next_image rnd nfiles (state w) = Some s'"
    by blast
  then have s'': "next_image rnd nfiles (state ?w) = Some s'"
    by (simp add: next_image_def split: option.splits if_splits)
  from assms(8) have "unit_source rnd" by (simp add: good_source_def)
  from next_image_position [OF p this n s'] have "position_ok nfiles s'" .
  from rerender_returns [OF this] obtain w' where w': "rerender nfiles ?w s' = Inr w'" by blast
  have "step nfiles timeMS (IntervalElapsed, rnd) ?w = Inr w'"
    using world_tick_full [of ?w timeMS nfiles rnd] t assms(6) s'' w' by simp
  then have last: "run nfiles timeMS (map (Pair IntervalElapsed) (rnds @ [rnd])) w = Inr w'"
    by (simp add: run_append run)
  from step_next_state [OF w' s''] have "orderIndex (state w') = orderIndex (state w) + 1"
    "counter (state w') = 0" by simp_all
  with last run show ?thesis by (simp add: tick_def)
qed

text \<open>Three files, 30000 ms per slide, from the mount: 3000 ticks, and one more.\<close>

theorem tick_slide_cycle_witness:
  "session (const_source (1/2)) 3 30000 [] = Inr (mounted_world 0) \<and>
   unit_source (const_source (1/2)) \<and> list_all (\<lambda>e. unit_source (snd e)) [] \<and>
   \<not> pause (state (mounted_world 0)) \<and> counter (state (mounted_world 0)) = 0 \<and>
   TICKS_PER_SLIDE 30000 = real (3000::nat) \<and>
   length (replicate 3000 (const_source (1/2))) = 3000 \<and> good_source 3 (const_source (1/2)) \<and>
   run 3 30000 (replicate 3000 (IntervalElapsed, const_source (1/2))) (mounted_world 0) =
     Inr (mounted_world 3000) \<and>
   (\<exists>w'. run 3 30000 (replicate 3000 (IntervalElapsed, const_source (1/2)) @
                           [(IntervalElapsed, const_source (1/2))]) (mounted_world 0) = Inr w' \<and>
         orderIndex (state w') = 1 \<and> counter (state w') = 0)"
proof -
  have s: "session (const_source (1/2)) 3 30000 [] = Inr (mounted_world 0)"
    by (simp add: session_def mount_three)
  have u: "unit_source (const_source (1/2))" by (rule unit_source_const) simp_all
  have g: "good_source 3 (const_source (1/2))" by (rule good_source_const) simp_all
  have m: "\<not> pause (state (mounted_world 0))" "counter (state (mounted_world 0)) = 0"
    "orderIndex (state (mounted_world 0)) = 0"
    "(mounted_world 0)\<lparr>state := (state (mounted_world 0))\<lparr>counter := 3000\<rparr>\<rparr> = mounted_world 3000"
    by (simp_all add: mounted_world_def slide_def)
  have T: "TICKS_PER_SLIDE 30000 = real (3000::nat)" by (simp add: TICKS_PER_SLIDE_30s)
  have L: "length (replicate 3000 (const_source (1/2)::source)) = 3000" by simp
  have E: "list_all (\<lambda>e. unit_source (snd e)) ([]::(event \<times> source) list)" by simp
  from tick_slide_cycle [OF s u E m(1,2) T L g]
  show ?thesis using s u g m by (simp add: TICKS_PER_SLIDE_30s)
qed

section \<open>Going back\<close>

text \<open>
  C4. \<^verbatim>\<open>prev\<close> at position 0 changes nothing, so position and counter stay as they are; at
  every position above 0 it moves one position back and sets the counter to 0. The left
  arrow at position 0 leaves the whole world as it is: no effect runs again.
\<close>

theorem prev_spec:
  "(orderIndex s = 0 \<longrightarrow> prev s = s) \<and>
   (0 < orderIndex s \<longrightarrow> prev s = s\<lparr>orderIndex := orderIndex s - 1, counter := 0\<rparr>) \<and>
   (orderIndex (state w) = 0 \<longrightarrow> step nfiles timeMS (KeyDown ''ArrowLeft'', rnd) w = Inr w)"
  by (simp add: prev_def step_def update_def handleKeyPress_def rerender_def Let_def)

text \<open>Position 0, and position 2 with the counter at 7.\<close>

theorem prev_spec_witness:
  "orderIndex (slide 0 7) = 0 \<and> prev (slide 0 7) = slide 0 7 \<and>
   0 < orderIndex (slide 2 7) \<and> prev (slide 2 7) = slide 1 0 \<and>
   orderIndex (state paused_world) = 0 \<and>
   step 3 30000 (KeyDown ''ArrowLeft'', const_source 0) paused_world = Inr paused_world"
proof -
  have p: "orderIndex (state paused_world) = 0" by (simp add: paused_world_def)
  from prev_spec [of "slide 0 7"] prev_spec [of "slide 2 7"]
    prev_spec [of _ paused_world 3 30000 "const_source 0"] p
  show ?thesis by (simp add: slide_def)
qed

section \<open>Object URLs\<close>

text \<open>
  C5 says that at most one object URL is live at every point of a session after the mount.
  The initial value of \<^verbatim>\<open>currentImageUrl\<close> is a URL of its own (handle 0), created before
  the effect creates the URL it displays, and no cleanup revokes it: in the world any
  session ends in, two URLs are live, the initial one and the current one, and the initial
  one is still live after the unmount. Of the URLs the effect creates only the current one
  is live: the cleanup has revoked the one before.
\<close>

theorem initial_url_stays_live:
  assumes "session rnd nfiles timeMS es = Inr w"
  shows "objectURLs (env w) = [0, currentImageUrl (state w)] \<and> currentImageUrl (state w) \<noteq> 0 \<and>
         length (objectURLs (env w)) = 2 \<and> objectURLs (unmount w) = [0]"
proof -
  from session_resources [OF assms] have r: "resources_ok w" .
  then show ?thesis using unmount_resources(3) [OF r] by (simp add: resources_ok_def)
qed

text \<open>The mount on one file: the URLs 0 and 1 are live.\<close>

theorem initial_url_stays_live_witness:
  "session (const_source 0) 1 30000 [] = Inr
     \<lparr>state = \<lparr>imageOrder = [0], orderIndex = 0, currentImageUrl = 1, showOverlay = False,
               pause = False, mute = False, counter = 0\<rparr>,
      eff = \<lparr>effUrl = 1, effTimer = Some 2, effHandler = 3\<rparr>,
      env = \<lparr>objectURLs = [0, 1], revocations = [], intervals = [2], keydownListeners = [3],
             nextHandle = 4\<rparr>\<rparr> \<and>
   length [0, 1::nat] = 2"
proof -
  have e: "session (const_source 0) 1 30000 [] = Inr
     \<lparr>state = \<lparr>imageOrder = [0], orderIndex = 0, currentImageUrl = 1, showOverlay = False,
               pause = False, mute = False, counter = 0\<rparr>,
      eff = \<lparr>effUrl = 1, effTimer = Some 2, effHandler = 3\<rparr>,
      env = \<lparr>objectURLs = [0, 1], revocations = [], intervals = [2], keydownListeners = [3],
             nextHandle = 4\<rparr>\<rparr>"
    by code_simp
  from initial_url_stays_live [OF e] e show ?thesis by simp
qed

section \<open>The unmount\<close>

text \<open>
  C6. The unmount is the one cleanup function of the last effect. In the world any session
  ends in, the current URL is live and not yet revoked and a key listener is registered;
  after the unmount no interval timer is active, no key listener is registered, the
  current URL is no longer live and it has been revoked exactly once.
\<close>

theorem unmount_teardown:
  assumes "session rnd nfiles timeMS es = Inr w"
  shows "unmount w = cleanup (eff w) (env w) \<and>
         currentImageUrl (state w) \<in> set (objectURLs (env w)) \<and>
         count_list (revocations (env w)) (currentImageUrl (state w)) = 0 \<and>
         keydownListeners (env w) \<noteq> [] \<and>
         intervals (unmount w) = [] \<and>
         keydownListeners (unmount w) = [] \<and>
         currentImageUrl (state w) \<notin> set (objectURLs (unmount w)) \<and>
         count_list (revocations (unmount w)) (currentImageUrl (state w)) = 1"
proof -
  from session_resources [OF assms] have r: "resources_ok w" .
  then have u: "currentImageUrl (state w) = effUrl (eff w)" "0 < effUrl (eff w)"
    "objectURLs (env w) = [0, effUrl (eff w)]" "keydownListeners (env w) = [effHandler (eff w)]"
    and old: "list_all (\<lambda>u. u < effUrl (eff w)) (revocations (env w))"
    by (simp_all add: resources_ok_def)
  from count_list_older [OF old] have c: "count_list (revocations (env w)) (effUrl (eff w)) = 0" .
  show ?thesis using unmount_resources [OF r] u c by (simp add: unmount_def)
qed

text \<open>The session \<open>demo_events\<close>: its unmount revokes URL 7, after 1 and 4 before it.\<close>

theorem unmount_teardown_witness:
  "session (const_source (1/2)) 3 30000 demo_events = Inr demo_world \<and>
   intervals (unmount demo_world) = [] \<and> keydownListeners (unmount demo_world) = [] \<and>
   objectURLs (unmount demo_world) = [0] \<and> revocations (unmount demo_world) = [1, 4, 7] \<and>
   currentImageUrl (state demo_world) = 7"
proof -
  have e: "unmount demo_world =
     \<lparr>objectURLs = [0], revocations = [1, 4, 7], intervals = [], keydownListeners = [],
      nextHandle = 9\<rparr>"
    by code_simp
  from unmount_teardown [OF demo_session] e demo_session show ?thesis
    by (simp add: demo_world_def)
qed

section \<open>The pause\<close>

text \<open>
  C7. The space key changes \<^verbatim>\<open>pause\<close> and nothing else of the state. While \<^verbatim>\<open>pause\<close> holds
  no timer is active, so however many intervals elapse the world, and with it the counter,
  stays as it is. The space key pressed in the world of any session is handled without
  failure, flips \<^verbatim>\<open>pause\<close>, keeps position, counter, order and the other flags, and leaves
  a timer active exactly when \<^verbatim>\<open>pause\<close> is off. The sources of the session keep the contract of
  \<^verbatim>\<open>Math.random()\<close>.
\<close>

theorem pause_freezes_counter:
  assumes "session rnd0 nfiles timeMS es = Inr w" and "unit_source rnd0"
    and "list_all (\<lambda>e. unit_source (snd e)) es"
  shows "handleKeyPress rnd nfiles '' '' s = Some (s\<lparr>pause := \<not> pause s\<rparr>) \<and>
         (pause (state w) \<longrightarrow> run nfiles timeMS (map (Pair IntervalElapsed) rnds) w = Inr w) \<and>
         (\<exists>w'. step nfiles timeMS (KeyDown '' '', rnd) w = Inr w' \<and>
               pause (state w') = (\<not> pause (state w)) \<and>
               orderIndex (state w') = orderIndex (state w) \<and>
               counter (state w') = counter (state w) \<and>
               imageOrder (state w') = imageOrder (state w) \<and>
               mute (state w') = mute (state w) \<and>
               showOverlay (state w') = showOverlay (state w) \<and>
               (intervals (env w') = []) = pause (state w'))"
proof -
  from session_resources [OF assms(1)] have r: "resources_ok w" .
  from session_position(2) [OF assms] have p: "position_ok nfiles (state w)" .
  have "handleKeyPress rnd nfiles '' '' s = Some (s\<lparr>pause := \<not> pause s\<rparr>)"
    by (simp add: handleKeyPress_def)
  moreover have "pause (state w) \<longrightarrow> run nfiles timeMS (map (Pair IntervalElapsed) rnds) w = Inr w"
    using paused_ticks [OF r] by blast
  ultimately show ?thesis using toggle_pause_step [OF r p, of timeMS rnd] by blast
qed

text \<open>
  The session paused with the counter at 500: 3000 elapsed intervals change nothing, and
  the next space key resumes with the counter at 500.
\<close>

theorem pause_freezes_counter_witness:
  "session (const_source (1/2)) 3 30000 paused_events = Inr paused_world \<and>
   unit_source (const_source (1/2)) \<and>
   list_all (\<lambda>e. unit_source (snd e)) paused_events \<and>
   pause (state paused_world) \<and> counter (state paused_world) = 500 \<and>
   run 3 30000 (map (Pair IntervalElapsed) (replicate 3000 (const_source (1/2)))) paused_world =
     Inr paused_world \<and>
   (\<exists>w'. step 3 30000 (KeyDown '' '', const_source (1/2)) paused_world = Inr w' \<and>
         \<not> pause (state w') \<and> orderIndex (state w') = 0 \<and> counter (state w') = 500 \<and>
         intervals (env w') \<noteq> [])"
proof -
  have u: "unit_source (const_source (1/2))" by (rule unit_source_const) simp_all
  have l: "list_all (\<lambda>e. unit_source (snd e)) paused_events"
    using u by (simp add: paused_events_def list_all_iff)
  have p: "pause (state paused_world)" "counter (state paused_world) = 500"
    "orderIndex (state paused_world) = 0"
    by (simp_all add: paused_world_def)
  from pause_freezes_counter [OF paused_session u l,
      of "const_source (1/2)" _ "replicate 3000 (const_source (1/2))"]
  show ?thesis using paused_session u l p by auto
qed

section \<open>An empty collection\<close>

text \<open>
  C8 says that a call with length 0 fails with an invalid-input condition instead of
  returning. The function has no check of its argument and nothing in it throws: with
  length 0 neither loop runs and the call returns the empty array.
\<close>

theorem generateRandomOrder_empty_returns:
  "generateRandomOrder (const_source 0) 0 = Some []"
  by code_simp

text \<open>
  C8, as the code has it: for length 0 the generator returns the empty sequence, whatever
  the random source, and signals no failure.
\<close>

theorem generateRandomOrder_empty_collection: "generateRandomOrder rnd 0 = Some []"
  unfolding generateRandomOrder_def Let_def dense_iff by (simp add: sample_loop.simps)

section \<open>The fit of the window\<close>

text \<open>
  C9 says that the fitter scales by \<open>min(maxWidth/width, maxHeight/height)\<close>, adds the size
  of the frame (outer minus inner size) to the scaled size, and moves the window so that
  the resize is centred on the window's current centre. The first two hold
  (\<open>resizeWindow_size\<close>). The new corner is computed from the inner size where the size
  requested is an outer size, so the centre moves left and up by half the frame
  (\<open>resizeWindow_center_shift\<close>): a window of 800 by 600 in a frame of 816 by 639, showing
  an image of 400 by 300, is asked to keep its size and to move from corner \<open>(100, 50)\<close> to
  \<open>(92, 30.5)\<close>, its centre from \<open>(508, 369.5)\<close> to \<open>(500, 350)\<close>.
\<close>

theorem resizeWindow_moves_center:
  "resizeWindow 400 300 800 600 framed_window = ((816, 639), (92, 61 / 2)) \<and>
   current_center framed_window = (508, 739 / 2) \<and>
   requested_center (resizeWindow 400 300 800 600 framed_window) = (500, 350)"
  by (simp add: resizeWindow_def requested_center_def current_center_def framed_window_def Let_def)

section \<open>The size of a chunk\<close>

text \<open>
  C10. For every length of at least 1 the result has exactly \<open>min(50, length)\<close> elements,
  in the dense branch (the slice) and in the sparse one (the loop's exit condition), under
  the conditions on the source of C1.
\<close>

theorem generateRandomOrder_length:
  assumes "1 \<le> len" and "unit_source rnd"
    and "100 \<le> len \<longrightarrow> yields_distinct rnd len 50"
  shows "\<exists>xs. generateRandomOrder rnd len = Some xs \<and> length xs = min 50 len"
  using generateRandomOrder_result [OF assms(2,1)] assms(3)
  unfolding MAX_RANDOM_LEN_def by blast

text \<open>The dense branch, on 3 files with every draw equal to one half.\<close>

theorem generateRandomOrder_length_witness:
  "1 \<le> (3::nat) \<and> unit_source (const_source (1/2)) \<and>
   generateRandomOrder (const_source (1/2)) 3 = Some [1, 2, 0] \<and>
   length [1, 2, 0::nat] = min 50 3"
proof -
  have u: "unit_source (const_source (1/2))" by (rule unit_source_const) simp_all
  have e: "generateRandomOrder (const_source (1/2)) 3 = Some [1, 2, 0]" by code_simp
  from generateRandomOrder_length [of 3 "const_source (1/2)"] u e
  show ?thesis by simp
qed

end
